theory Spec2Isabelle
  imports Complex_Main
begin

unbundle bit_operations_syntax

section \<open>Machine integers of the encoder\<close>

text \<open>
  The header computes on three kinds of unsigned integers: \<open>std::size_t\<close> (template
  arguments, table indices, the bit spreader), the table's element type \<open>LutValue\<close>, and
  the encoding type \<open>T\<close>. Each is modelled as a natural number below \<open>2 ^ w\<close> for its
  width \<open>w\<close>, with the truncation of every operation that can exceed the width written
  out as \<open>take_bit w\<close> (that is, \<open>mod 2 ^ w\<close>). \<open>std::size_t\<close> has 64 bits (the build
  passes \<open>-m64\<close>).
\<close>

definition size_t_digits :: nat where
  "size_t_digits = 64"

definition to_size_t :: "nat \<Rightarrow> nat" where
  "to_size_t x = take_bit size_t_digits x"

text \<open>The product of two \<open>std::size_t\<close> values, which wraps around.\<close>

definition size_mul :: "nat \<Rightarrow> nat \<Rightarrow> nat" where
  "size_mul a b = to_size_t (a * b)"

section \<open>The bit spreader\<close>

text \<open>
  \<open>mortonnd::SplitByN<BitsRemaining>(input, fields)\<close>: the primary template and its
  specialisation for \<open>BitsRemaining = 1\<close>. Both arguments and the result are
  \<open>std::size_t\<close>; the left shift drops the bits that leave the 64-bit value. There is no
  instantiation for \<open>BitsRemaining = 0\<close> (the primary template would recurse without end,
  and the encoder asserts \<open>LutBits > 0\<close>), so the function has no equation for it.
\<close>

fun SplitByN :: "nat \<Rightarrow> nat \<Rightarrow> nat \<Rightarrow> nat" where
  "SplitByN (Suc 0) input fields = input AND 1"
| "SplitByN (Suc (Suc n)) input fields =
     to_size_t (push_bit fields (SplitByN (Suc n) (drop_bit 1 input) fields)) OR (input AND 1)"

section \<open>The encoder's configuration\<close>

text \<open>
  What the static assertions read of the encoding type \<open>T\<close>:
  \<open>std::is_integral<T>\<close>, \<open>std::is_unsigned<T>\<close>, \<open>std::numeric_limits<T>::digits\<close> and
  \<open>std::is_constructible<std::size_t, T>\<close>.
\<close>

record value_type =
  is_integral :: bool
  is_unsigned :: bool
  digits :: nat
  size_t_constructible :: bool

text \<open>The template arguments of \<open>MortonNDLutEncoder<Dimensions, FieldBits, LutBits, T>\<close>.\<close>

record config =
  Dimensions :: nat
  FieldBits :: nat
  LutBits :: nat
  T :: value_type

text \<open>
  Template arguments are \<open>std::size_t\<close> values, so the products the class forms
  (\<open>LutBits * Dimensions\<close>, \<open>Dimensions * FieldBits\<close>, \<open>Dimensions * LutBits\<close>) are
  \<open>size_mul\<close>.
\<close>

definition LutValueWidth :: "config \<Rightarrow> nat" where
  "LutValueWidth cfg = size_mul (LutBits cfg) (Dimensions cfg)"

subsection \<open>The static assertions\<close>

datatype config_error =
    DimensionsZero
  | FieldBitsZero
  | LutBitsZero
  | LutBitsAboveFieldBits
  | LutBitsAbove32
  | LutValueWidthAbove64
  | LutValueWidthAboveSizeT
  | ResultTooWide
  | SignedT
  | SizeTNotConstructible

text \<open>\<open>static_assert(ok, message)\<close>: nothing when the condition holds, its message otherwise.\<close>

definition static_assert :: "bool \<Rightarrow> config_error \<Rightarrow> config_error list" where
  "static_assert ok err = (if ok then [] else [err])"

text \<open>
  The ten assertions of the class, in the order of the source. The comparison of
  \<open>digits\<close> with \<open>Dimensions * FieldBits\<close> is one of \<open>std::size_t\<close> values.
\<close>

definition static_asserts :: "config \<Rightarrow> config_error list" where
  "static_asserts cfg =
     static_assert (Dimensions cfg > 0) DimensionsZero @
     static_assert (FieldBits cfg > 0) FieldBitsZero @
     static_assert (LutBits cfg > 0) LutBitsZero @
     static_assert (LutBits cfg \<le> FieldBits cfg) LutBitsAboveFieldBits @
     static_assert (LutBits cfg \<le> 32) LutBitsAbove32 @
     static_assert (LutValueWidth cfg \<le> 64) LutValueWidthAbove64 @
     static_assert (LutValueWidth cfg \<le> size_t_digits) LutValueWidthAboveSizeT @
     static_assert (\<not> is_integral (T cfg) \<or>
         digits (T cfg) \<ge> size_mul (Dimensions cfg) (FieldBits cfg)) ResultTooWide @
     static_assert (\<not> is_integral (T cfg) \<or> is_unsigned (T cfg)) SignedT @
     static_assert (size_t_constructible (T cfg)) SizeTNotConstructible"

subsection \<open>Derived constants\<close>

text \<open>
  \<open>ChunkCount = 1 + ((FieldBits - 1) / LutBits)\<close>. The class asserts \<open>FieldBits > 0\<close> and
  \<open>LutBits > 0\<close>, so the subtraction does not wrap and the division is defined wherever
  the constant exists.
\<close>

definition ChunkCount :: "config \<Rightarrow> nat" where
  "ChunkCount cfg = 1 + ((FieldBits cfg - 1) div LutBits cfg)"

text \<open>
  \<open>ChunkMask = ~std::size_t(0) >> (digits - LutBits)\<close>, with the digits of
  \<open>std::size_t\<close>; \<open>~std::size_t(0)\<close> is the value with all 64 bits set. The class asserts
  \<open>LutBits <= 32\<close>, so the subtraction does not wrap.
\<close>

definition ChunkMask :: "config \<Rightarrow> nat" where
  "ChunkMask cfg = drop_bit (size_t_digits - LutBits cfg) (mask size_t_digits)"

text \<open>\<open>pow(base, exp)\<close> on \<open>std::size_t\<close>, and \<open>LutSize = pow(2, LutBits)\<close>.\<close>

fun pow :: "nat \<Rightarrow> nat \<Rightarrow> nat" where
  "pow base expo = (if expo = 0 then 1 else size_mul base (pow base (expo - 1)))"

definition LutSize :: "config \<Rightarrow> nat" where
  "LutSize cfg = pow 2 (LutBits cfg)"

subsection \<open>The lookup table\<close>

text \<open>
  Modelled from the spec: \<open>MinInt<Bits>\<close> is declared in \<open>mortonND_LUT.h\<close>, which is not
  among the sources; the spec describes it as the narrowest unsigned type holding the
  given number of bits. \<open>MinInt_digits\<close> is the width of that type among the 8, 16, 32
  and 64-bit unsigned types.
\<close>

definition MinInt_digits :: "nat \<Rightarrow> nat" where
  "MinInt_digits bits =
     (if bits \<le> 8 then 8 else if bits \<le> 16 then 16 else if bits \<le> 32 then 32 else 64)"

text \<open>The conversion of a \<open>std::size_t\<close> to \<open>LutValue = MinInt<LutValueWidth>\<close>.\<close>

definition to_LutValue :: "config \<Rightarrow> nat \<Rightarrow> nat" where
  "to_LutValue cfg x = take_bit (MinInt_digits (LutValueWidth cfg)) x"

text \<open>
  The member \<open>SplitByN(input)\<close>, which returns the spreader's result as a \<open>LutValue\<close>
  (named \<open>LutSplitByN\<close> here, the namespace-level function being \<open>SplitByN\<close>).
\<close>

definition LutSplitByN :: "config \<Rightarrow> nat \<Rightarrow> nat" where
  "LutSplitByN cfg input = to_LutValue cfg (SplitByN (LutBits cfg) input (Dimensions cfg))"

text \<open>\<open>std::make_index_sequence<N>\<close>: the indices \<open>0, ..., N - 1\<close>.\<close>

definition make_index_sequence :: "nat \<Rightarrow> nat list" where
  "make_index_sequence n = [0..<n]"

definition BuildLut :: "config \<Rightarrow> nat list \<Rightarrow> nat list" where
  "BuildLut cfg idxs = map (LutSplitByN cfg) idxs"

text \<open>
  An encoder instance: its template arguments and its only data member, the constant
  array \<open>LookupTable\<close>, initialised with \<open>BuildLut(std::make_index_sequence<LutSize>{})\<close>.
\<close>

record encoder =
  params :: config
  LookupTable :: "nat list"

definition MortonNDLutEncoder :: "config \<Rightarrow> encoder" where
  "MortonNDLutEncoder cfg =
     \<lparr>params = cfg, LookupTable = BuildLut cfg (make_index_sequence (LutSize cfg))\<rparr>"

text \<open>
  Instantiating and constructing the class: the failed assertions, or the instance.
\<close>

definition Construct :: "config \<Rightarrow> config_error list + encoder" where
  "Construct cfg =
     (if static_asserts cfg = [] then Inr (MortonNDLutEncoder cfg)
      else Inl (static_asserts cfg))"

section \<open>Encoding\<close>

text \<open>
  The conversion to \<open>T\<close>, for an unsigned integer type of \<open>digits\<close> bits. Every parameter
  and every return value of type \<open>T\<close> passes through it. For an 8 or 16-bit \<open>T\<close> the
  operands of \<open>>>\<close>, \<open><<\<close> and \<open>|\<close> are promoted to \<open>int\<close>; they are non-negative, and
  where the assertions hold the shifts are by less than the width of \<open>T\<close>, so the
  results stay below \<open>2 ^ 31\<close>: computing on naturals and truncating at the conversion
  back to \<open>T\<close> is what the code does. For a wider \<open>T\<close> the operations are those of \<open>T\<close>,
  which truncate to the same value.
  \<open>LookupField\<close>, \<open>EncodeInternal\<close> and \<open>Encode\<close> below are those of an integral \<open>T\<close>:
  for a user-provided class the operators are the class's own, and for a type without
  them (\<open>double\<close>) the call does not compile; the functions say nothing about either.
\<close>

definition to_T :: "config \<Rightarrow> nat \<Rightarrow> nat" where
  "to_T cfg x = take_bit (digits (T cfg)) x"

text \<open>
  \<open>LookupField(field, I...)\<close>: the overload for one remaining index, and the one for
  more. No overload takes an empty index list (\<open>ChunkCount\<close> is at least 1).
\<close>

fun LookupField :: "encoder \<Rightarrow> nat \<Rightarrow> nat list \<Rightarrow> nat" where
  "LookupField e field [i] =
     to_T (params e) (LookupTable e ! (field AND ChunkMask (params e)))"
| "LookupField e field (i # j # args) =
     to_T (params e)
       (push_bit (size_mul (Dimensions (params e)) (LutBits (params e)))
          (LookupField e (to_T (params e) (drop_bit (LutBits (params e)) field)) (j # args))
        OR to_T (params e) (LookupTable e ! to_size_t (field AND ChunkMask (params e))))"

text \<open>
  \<open>EncodeInternal(field1, fields...)\<close>: the overload for a single field, and the one
  for more. The head of the argument list is converted to \<open>T\<close> (the parameter
  \<open>T field1\<close>).
\<close>

fun EncodeInternal :: "encoder \<Rightarrow> nat list \<Rightarrow> nat" where
  "EncodeInternal e [field] =
     LookupField e (to_T (params e) field) (make_index_sequence (ChunkCount (params e)))"
| "EncodeInternal e (field1 # f # fs) =
     to_T (params e)
       (push_bit 1 (EncodeInternal e (f # fs))
        OR LookupField e (to_T (params e) field1)
             (make_index_sequence (ChunkCount (params e))))"

text \<open>
  \<open>Encode(field0, fields...)\<close>: a call with a number of arguments other than
  \<open>Dimensions\<close> fails its static assertion and yields no value.
\<close>

definition Encode :: "encoder \<Rightarrow> nat list \<Rightarrow> nat option" where
  "Encode e fs =
     (if length fs = Dimensions (params e) then Some (EncodeInternal e fs) else None)"

subsection \<open>The table indices of one field\<close>

text \<open>
  The indices at which \<open>LookupField(field, I...)\<close> reads \<open>LookupTable\<close>, lowest chunk
  first: the same recursion as \<open>LookupField\<close>, collecting the subscripts instead of
  combining the entries.
\<close>

fun LookupField_indices :: "encoder \<Rightarrow> nat \<Rightarrow> nat list \<Rightarrow> nat list" where
  "LookupField_indices e field [i] = [field AND ChunkMask (params e)]"
| "LookupField_indices e field (i # j # args) =
     to_size_t (field AND ChunkMask (params e)) #
     LookupField_indices e (to_T (params e) (drop_bit (LutBits (params e)) field)) (j # args)"

subsection \<open>The input mask\<close>

text \<open>
  \<open>InputMask()\<close> returns \<open>~T(0) >> (digits - FieldBits)\<close>. When \<open>T\<close> is narrower than
  \<open>int\<close> (8 or 16 bits), \<open>T(0)\<close> is promoted to \<open>int\<close> before \<open>~\<close>: the complement is
  the \<open>int\<close> \<open>-1\<close>, the shift is one of a negative \<open>int\<close> (arithmetic, as GCC defines
  it), and the result is converted to \<open>T\<close> on return. For a \<open>T\<close> of 32 bits or more the
  complement and the shift are those of \<open>T\<close>. \<open>int\<close> has 31 value bits. The member
  asserts \<open>std::is_integral<T>\<close>: for another \<open>T\<close> the call yields no value.
\<close>

definition int_digits :: nat where
  "int_digits = 31"

definition InputMask :: "config \<Rightarrow> nat option" where
  "InputMask cfg =
     (if \<not> is_integral (T cfg) then None
      else
        let w = digits (T cfg); n = w - FieldBits cfg in
        if w \<le> int_digits
        then Some (nat (take_bit w (drop_bit n (NOT (0 :: int)))))
        else Some (drop_bit n (mask w)))"

section \<open>Valid configurations\<close>

text \<open>
  A configuration the theorems below speak about: every static assertion holds, \<open>T\<close> is
  an integral type, and the result size \<open>Dimensions * FieldBits\<close> is below \<open>2 ^ 64\<close>, so
  that the \<open>std::size_t\<close> products the assertions compare are the products themselves.
\<close>

definition valid_config :: "config \<Rightarrow> bool" where
  "valid_config cfg \<longleftrightarrow>
     static_asserts cfg = [] \<and> is_integral (T cfg) \<and>
     Dimensions cfg * FieldBits cfg < 2 ^ size_t_digits"

section \<open>The reference interleaver of the specification\<close>

text \<open>
  The specification's result contract, as the slow loop it describes: for every field
  index \<open>k < Dimensions\<close> and every bit index \<open>b < FieldBits\<close>, bit \<open>b\<close> of field \<open>k\<close> is
  copied to position \<open>k + Dimensions * b\<close> of the result. \<open>naive_interleave_field\<close> is the
  inner loop over the bits of one field, \<open>naive_interleave_fields\<close> the outer loop over
  the fields. This definition follows the specification, not the header.
\<close>

primrec naive_interleave_field :: "nat \<Rightarrow> nat \<Rightarrow> nat \<Rightarrow> nat \<Rightarrow> nat" where
  "naive_interleave_field D k f 0 = 0"
| "naive_interleave_field D k f (Suc b) =
     naive_interleave_field D k f b OR (if bit f b then push_bit (k + D * b) 1 else 0)"

primrec naive_interleave_fields :: "nat \<Rightarrow> nat \<Rightarrow> nat list \<Rightarrow> nat \<Rightarrow> nat" where
  "naive_interleave_fields D F fs 0 = 0"
| "naive_interleave_fields D F fs (Suc k) =
     naive_interleave_fields D F fs k OR naive_interleave_field D k (fs ! k) F"

definition naive_interleave :: "nat \<Rightarrow> nat \<Rightarrow> nat list \<Rightarrow> nat" where
  "naive_interleave D F fs = naive_interleave_fields D F fs D"

section \<open>Encoding types used as examples\<close>

text \<open>
  The traits of \<open>std::uint8_t\<close>, \<open>std::uint16_t\<close>, \<open>std::uint32_t\<close> and \<open>std::uint64_t\<close>,
  and of \<open>double\<close>: a signed, non-integral type with 53 digits from which a
  \<open>std::size_t\<close> can be constructed.
\<close>

definition uint8_t :: value_type where
  "uint8_t = \<lparr>is_integral = True, is_unsigned = True, digits = 8, size_t_constructible = True\<rparr>"

definition uint16_t :: value_type where
  "uint16_t = \<lparr>is_integral = True, is_unsigned = True, digits = 16, size_t_constructible = True\<rparr>"

definition uint32_t :: value_type where
  "uint32_t = \<lparr>is_integral = True, is_unsigned = True, digits = 32, size_t_constructible = True\<rparr>"

definition uint64_t :: value_type where
  "uint64_t = \<lparr>is_integral = True, is_unsigned = True, digits = 64, size_t_constructible = True\<rparr>"

definition double_t :: value_type where
  "double_t = \<lparr>is_integral = False, is_unsigned = False, digits = 53, size_t_constructible = True\<rparr>"

section \<open>Bits of the spreader's result\<close>

lemma bit_to_size_t: "bit (to_size_t x) p \<longleftrightarrow> p < 64 \<and> bit x p"
  by (simp add: to_size_t_def size_t_digits_def bit_take_bit_iff)

lemma bit_and_1_nat: "bit (x AND (1::nat)) p \<longleftrightarrow> p = 0 \<and> odd x"
  by (auto simp add: bit_and_iff bit_1_iff bit_0)

lemma SplitByN_Suc_0_bit: "bit (SplitByN (Suc 0) x s) p \<longleftrightarrow> p = 0 \<and> odd x"
  using bit_and_1_nat [of x p] by simp

lemma SplitByN_Suc_Suc_bit:
  "bit (SplitByN (Suc (Suc k)) x s) p \<longleftrightarrow>
     (p < 64 \<and> s \<le> p \<and> bit (SplitByN (Suc k) (drop_bit 1 x) s) (p - s)) \<or> (p = 0 \<and> odd x)"
  using bit_and_1_nat [of x p]
  by (simp add: bit_or_iff bit_to_size_t bit_push_bit_iff)

lemma SplitByN_bit_Suc:
  assumes "0 < s" "n * s < 64"
  shows "bit (SplitByN (Suc n) x s) p \<longleftrightarrow> s dvd p \<and> p div s < Suc n \<and> bit x (p div s)"
  using assms
proof (induction n arbitrary: x p)
  case 0
  then show ?case
    unfolding SplitByN_Suc_0_bit
    by (auto simp add: bit_0 dvd_div_eq_0_iff)
next
  case (Suc k)
  have k: "k * s < 64" using Suc.prems by simp
  have IH: "\<And>q. bit (SplitByN (Suc k) (drop_bit 1 x) s) q \<longleftrightarrow>
              s dvd q \<and> q div s < Suc k \<and> bit x (Suc (q div s))"
    using Suc.IH [OF \<open>0 < s\<close> k] by (simp add: bit_drop_bit_eq)
  show ?case
  proof (cases "p = 0")
    case True
    then show ?thesis using \<open>0 < s\<close>
      unfolding SplitByN_Suc_Suc_bit by (simp add: bit_0)
  next
    case False
    show ?thesis
    proof (cases "s dvd p")
      case True
      then obtain m where m: "p = s * m" by (auto simp: dvd_def)
      with False have m0: "0 < m" by (cases m) auto
      have ps: "s \<le> p" using m m0 by simp
      have "p - s = s * (m - 1)" using m m0
        by (cases m) simp_all
      then have d1: "(p - s) div s = m - 1" using \<open>0 < s\<close> by simp
      have d2: "p div s = m" using m \<open>0 < s\<close> by simp
      have d3: "s dvd (p - s)" using True by simp
      have bound: "m < Suc (Suc k) \<Longrightarrow> p < 64"
      proof -
        assume "m < Suc (Suc k)"
        then have "m \<le> Suc k" by simp
        then have "s * m \<le> s * Suc k" by (rule mult_le_mono2)
        also have "\<dots> = Suc k * s" by (simp add: mult.commute)
        also have "\<dots> < 64" using Suc.prems by simp
        finally show ?thesis using m by simp
      qed
      have S: "Suc (m - 1) = m" using m0 by simp
      have L: "bit (SplitByN (Suc (Suc k)) x s) p \<longleftrightarrow> p < 64 \<and> m - 1 < Suc k \<and> bit x m"
        unfolding SplitByN_Suc_Suc_bit IH d1 S using False ps d3 by simp
      have R: "s dvd p \<and> p div s < Suc (Suc k) \<and> bit x (p div s) \<longleftrightarrow>
                 m < Suc (Suc k) \<and> bit x m"
        unfolding d2 using True by simp
      have M: "m - 1 < Suc k \<longleftrightarrow> m < Suc (Suc k)" using m0 by arith
      show ?thesis unfolding L R M using bound by blast
    next
      case False
      then have "s \<le> p \<Longrightarrow> \<not> s dvd (p - s)"
        using dvd_add [of s "p - s" s] by auto
      with False \<open>p \<noteq> 0\<close> show ?thesis
        unfolding SplitByN_Suc_Suc_bit IH by blast
    qed
  qed
qed

section \<open>Consequences of the static assertions\<close>

lemma static_assert_Nil_iff: "static_assert ok err = [] \<longleftrightarrow> ok"
  by (simp add: static_assert_def)

lemma static_asserts_Nil_iff:
  "static_asserts cfg = [] \<longleftrightarrow>
     0 < Dimensions cfg \<and> 0 < FieldBits cfg \<and> 0 < LutBits cfg \<and>
     LutBits cfg \<le> FieldBits cfg \<and> LutBits cfg \<le> 32 \<and> LutValueWidth cfg \<le> 64 \<and>
     (is_integral (T cfg) \<longrightarrow> size_mul (Dimensions cfg) (FieldBits cfg) \<le> digits (T cfg)) \<and>
     (is_integral (T cfg) \<longrightarrow> is_unsigned (T cfg)) \<and>
     size_t_constructible (T cfg)"
  unfolding static_asserts_def append_is_Nil_conv static_assert_Nil_iff size_t_digits_def
  by blast

lemma size_mul_exact: "a * b < 2 ^ 64 \<Longrightarrow> size_mul a b = a * b"
  by (simp add: size_mul_def to_size_t_def size_t_digits_def take_bit_nat_eq_self)

lemma valid_config_products:
  assumes "valid_config cfg"
  shows "size_mul (Dimensions cfg) (FieldBits cfg) = Dimensions cfg * FieldBits cfg"
    and "size_mul (Dimensions cfg) (LutBits cfg) = Dimensions cfg * LutBits cfg"
    and "LutValueWidth cfg = Dimensions cfg * LutBits cfg"
proof -
  have DF: "Dimensions cfg * FieldBits cfg < 2 ^ 64"
    using assms by (simp add: valid_config_def size_t_digits_def)
  have "LutBits cfg \<le> FieldBits cfg"
    using assms by (simp add: valid_config_def static_asserts_Nil_iff)
  then have "Dimensions cfg * LutBits cfg \<le> Dimensions cfg * FieldBits cfg"
    by (rule mult_le_mono2)
  from this DF have DL: "Dimensions cfg * LutBits cfg < 2 ^ 64" by (rule le_less_trans)
  show "size_mul (Dimensions cfg) (FieldBits cfg) = Dimensions cfg * FieldBits cfg"
    using DF by (rule size_mul_exact)
  show "size_mul (Dimensions cfg) (LutBits cfg) = Dimensions cfg * LutBits cfg"
    using DL by (rule size_mul_exact)
  have "LutBits cfg * Dimensions cfg < 2 ^ 64" using DL by (simp add: mult.commute)
  then show "LutValueWidth cfg = Dimensions cfg * LutBits cfg"
    unfolding LutValueWidth_def by (simp add: size_mul_exact mult.commute)
qed

lemma valid_configD:
  assumes "valid_config cfg"
  shows "0 < Dimensions cfg" and "0 < FieldBits cfg" and "0 < LutBits cfg"
    and "LutBits cfg \<le> FieldBits cfg" and "LutBits cfg \<le> 32"
    and "Dimensions cfg * LutBits cfg \<le> 64"
    and "Dimensions cfg * FieldBits cfg \<le> digits (T cfg)"
    and "Dimensions cfg * LutBits cfg \<le> digits (T cfg)"
proof -
  have A: "static_asserts cfg = []" and I: "is_integral (T cfg)"
    using assms by (simp_all add: valid_config_def)
  show "0 < Dimensions cfg" "0 < FieldBits cfg" "0 < LutBits cfg"
    "LutBits cfg \<le> FieldBits cfg" "LutBits cfg \<le> 32"
    using A by (simp_all add: static_asserts_Nil_iff)
  show "Dimensions cfg * LutBits cfg \<le> 64"
    using A valid_config_products(3) [OF assms] by (simp add: static_asserts_Nil_iff)
  show DF: "Dimensions cfg * FieldBits cfg \<le> digits (T cfg)"
    using A I valid_config_products(1) [OF assms] by (simp add: static_asserts_Nil_iff)
  have "Dimensions cfg * LutBits cfg \<le> Dimensions cfg * FieldBits cfg"
    using \<open>LutBits cfg \<le> FieldBits cfg\<close> by (rule mult_le_mono2)
  from this DF show "Dimensions cfg * LutBits cfg \<le> digits (T cfg)" by (rule le_trans)
qed

lemma ChunkMask_eq_mask: "LutBits cfg \<le> 64 \<Longrightarrow> ChunkMask cfg = mask (LutBits cfg)"
  by (rule bit_eqI) (auto simp add: ChunkMask_def size_t_digits_def bit_drop_bit_eq bit_mask_iff)

lemma and_ChunkMask: "LutBits cfg \<le> 64 \<Longrightarrow> x AND ChunkMask cfg = take_bit (LutBits cfg) x"
  by (simp add: ChunkMask_eq_mask take_bit_eq_mask)

lemma pow_0: "pow b 0 = 1"
  by simp

lemma pow_Suc: "pow b (Suc n) = size_mul b (pow b n)"
  by simp

lemma pow_2: "n < 64 \<Longrightarrow> pow 2 n = 2 ^ n"
proof (induction n)
  case 0
  show ?case by simp
next
  case (Suc n)
  then have IH: "pow 2 n = 2 ^ n" by simp
  have "(2::nat) ^ Suc n < 2 ^ 64"
    using Suc.prems by (rule power_strict_increasing) simp
  then have "size_mul 2 (2 ^ n) = 2 * 2 ^ n"
    by (intro size_mul_exact) simp
  then show ?case unfolding pow_Suc IH by simp
qed

lemma LutSize_eq: "LutBits cfg < 64 \<Longrightarrow> LutSize cfg = 2 ^ LutBits cfg"
  by (simp add: LutSize_def pow_2 del: pow.simps)

section \<open>The lookup table's entries\<close>

lemma take_bit_eq_self_bits:
  fixes x :: nat
  assumes "\<And>p. bit x p \<Longrightarrow> p < n"
  shows "take_bit n x = x"
  by (rule bit_eqI) (use assms in \<open>auto simp add: bit_take_bit_iff\<close>)

lemma SplitByN_bit:
  assumes "0 < s" and "0 < n" and "(n - 1) * s < 64"
  shows "bit (SplitByN n x s) p \<longleftrightarrow> s dvd p \<and> p div s < n \<and> bit x (p div s)"
proof -
  obtain m where n: "n = Suc m" using \<open>0 < n\<close> by (cases n) auto
  with assms have "m * s < 64" by simp
  with \<open>0 < s\<close> show ?thesis unfolding n by (rule SplitByN_bit_Suc)
qed

lemma SplitByN_bit_le:
  assumes "0 < s" and "0 < n" and "(n - 1) * s < 64" and "bit (SplitByN n x s) p"
  shows "p \<le> (n - 1) * s"
proof -
  from assms have d: "s dvd p" and l: "p div s < n"
    by (simp_all add: SplitByN_bit)
  from l have "p div s \<le> n - 1" by simp
  then have "p div s * s \<le> (n - 1) * s" by (rule mult_le_mono1)
  with d show ?thesis by simp
qed

lemma valid_config_spread_fits:
  assumes "valid_config cfg"
  shows "(LutBits cfg - 1) * Dimensions cfg < 64"
proof -
  have "LutBits cfg - 1 < LutBits cfg" using valid_configD(3) [OF assms] by simp
  then have "(LutBits cfg - 1) * Dimensions cfg < LutBits cfg * Dimensions cfg"
    using valid_configD(1) [OF assms] by simp
  also have "\<dots> \<le> 64" using valid_configD(6) [OF assms] by (simp add: mult.commute)
  finally show ?thesis .
qed

lemma valid_config_SplitByN_bit:
  assumes "valid_config cfg"
  shows "bit (SplitByN (LutBits cfg) x (Dimensions cfg)) p \<longleftrightarrow>
           Dimensions cfg dvd p \<and> p div Dimensions cfg < LutBits cfg \<and>
           bit x (p div Dimensions cfg)"
  using valid_configD(1) [OF assms] valid_configD(3) [OF assms]
    valid_config_spread_fits [OF assms]
  by (rule SplitByN_bit)

lemma valid_config_SplitByN_bit_le:
  assumes "valid_config cfg" and "bit (SplitByN (LutBits cfg) x (Dimensions cfg)) p"
  shows "p \<le> (LutBits cfg - 1) * Dimensions cfg"
  using valid_configD(1) [OF assms(1)] valid_configD(3) [OF assms(1)]
    valid_config_spread_fits [OF assms(1)] assms(2)
  by (rule SplitByN_bit_le)

lemma MinInt_digits_ge: "k \<le> 64 \<Longrightarrow> k \<le> MinInt_digits k"
  by (simp add: MinInt_digits_def)

lemma LutSplitByN_eq:
  assumes "valid_config cfg"
  shows "LutSplitByN cfg x = SplitByN (LutBits cfg) x (Dimensions cfg)"
proof -
  have W: "LutValueWidth cfg \<le> MinInt_digits (LutValueWidth cfg)"
    using valid_configD(6) [OF assms] valid_config_products(3) [OF assms]
    by (intro MinInt_digits_ge) simp
  have "p < MinInt_digits (LutValueWidth cfg)"
    if "bit (SplitByN (LutBits cfg) x (Dimensions cfg)) p" for p
  proof -
    have "p \<le> (LutBits cfg - 1) * Dimensions cfg"
      using assms that by (rule valid_config_SplitByN_bit_le)
    also have "\<dots> < LutBits cfg * Dimensions cfg"
      using valid_configD(1) [OF assms] valid_configD(3) [OF assms] by simp
    also have "\<dots> = LutValueWidth cfg"
      using valid_config_products(3) [OF assms] by (simp add: mult.commute)
    finally show ?thesis using W by simp
  qed
  then show ?thesis
    unfolding LutSplitByN_def to_LutValue_def by (rule take_bit_eq_self_bits)
qed

lemma valid_config_LutSize:
  assumes "valid_config cfg"
  shows "LutSize cfg = 2 ^ LutBits cfg"
  using valid_configD(5) [OF assms] by (intro LutSize_eq) simp

lemma length_LookupTable:
  assumes "valid_config cfg"
  shows "length (LookupTable (MortonNDLutEncoder cfg)) = 2 ^ LutBits cfg"
  by (simp add: MortonNDLutEncoder_def BuildLut_def make_index_sequence_def
      valid_config_LutSize [OF assms])

lemma nth_LookupTable:
  assumes "valid_config cfg" and "i < 2 ^ LutBits cfg"
  shows "LookupTable (MortonNDLutEncoder cfg) ! i = SplitByN (LutBits cfg) i (Dimensions cfg)"
  using assms(2)
  by (simp add: MortonNDLutEncoder_def BuildLut_def make_index_sequence_def
      valid_config_LutSize [OF assms(1)] LutSplitByN_eq [OF assms(1)])

lemma params_MortonNDLutEncoder: "params (MortonNDLutEncoder cfg) = cfg"
  by (simp add: MortonNDLutEncoder_def)

lemma bit_to_T: "bit (to_T cfg x) p \<longleftrightarrow> p < digits (T cfg) \<and> bit x p"
  by (simp add: to_T_def bit_take_bit_iff)

lemma bit_table_lookup:
  assumes "valid_config cfg"
  shows "bit (LookupTable (MortonNDLutEncoder cfg) ! (field AND ChunkMask cfg)) p \<longleftrightarrow>
           Dimensions cfg dvd p \<and> p div Dimensions cfg < LutBits cfg \<and>
           bit field (p div Dimensions cfg)"
proof -
  have L: "LutBits cfg \<le> 64" using valid_configD(5) [OF assms] by simp
  have i: "field AND ChunkMask cfg = take_bit (LutBits cfg) field"
    using L by (rule and_ChunkMask)
  have "take_bit (LutBits cfg) field < 2 ^ LutBits cfg"
    by (rule take_bit_nat_less_exp)
  then have "LookupTable (MortonNDLutEncoder cfg) ! (field AND ChunkMask cfg) =
      SplitByN (LutBits cfg) (take_bit (LutBits cfg) field) (Dimensions cfg)"
    unfolding i by (rule nth_LookupTable [OF assms])
  then show ?thesis
    by (auto simp add: valid_config_SplitByN_bit [OF assms] bit_take_bit_iff)
qed

lemma to_size_t_index:
  assumes "valid_config cfg"
  shows "to_size_t (field AND ChunkMask cfg) = field AND ChunkMask cfg"
proof -
  have L: "LutBits cfg \<le> 64" using valid_configD(5) [OF assms] by simp
  have "p < 64" if "bit (take_bit (LutBits cfg) field) p" for p
    using that L by (simp add: bit_take_bit_iff)
  then have "take_bit 64 (take_bit (LutBits cfg) field) = take_bit (LutBits cfg) field"
    by (rule take_bit_eq_self_bits)
  then show ?thesis
    by (simp add: and_ChunkMask [OF L] to_size_t_def size_t_digits_def)
qed

lemma dvd_div_less_mult:
  fixes d :: nat
  assumes "0 < d" and "d dvd p" and "p div d < n"
  shows "p < d * n"
proof -
  from assms(2) have p: "p = d * (p div d)" by simp
  have "d * (p div d) < d * n" using assms(1,3) by simp
  with p show ?thesis by simp
qed

lemma bit_to_T_table_lookup:
  assumes "valid_config cfg"
  shows "bit (to_T cfg (LookupTable (MortonNDLutEncoder cfg) ! (field AND ChunkMask cfg))) p
           \<longleftrightarrow> Dimensions cfg dvd p \<and> p div Dimensions cfg < LutBits cfg \<and>
           bit field (p div Dimensions cfg)"
proof -
  have "p < digits (T cfg)"
    if "Dimensions cfg dvd p" and "p div Dimensions cfg < LutBits cfg"
  proof -
    have "p < Dimensions cfg * LutBits cfg"
      using valid_configD(1) [OF assms] that by (rule dvd_div_less_mult)
    also have "\<dots> \<le> digits (T cfg)" by (rule valid_configD(8) [OF assms])
    finally show ?thesis .
  qed
  then show ?thesis
    unfolding bit_to_T bit_table_lookup [OF assms] by blast
qed

section \<open>Bits of a field's lookups\<close>

lemma LookupField_single_bit:
  assumes "valid_config cfg"
  shows "bit (LookupField (MortonNDLutEncoder cfg) field [i]) p \<longleftrightarrow>
           Dimensions cfg dvd p \<and> p div Dimensions cfg < LutBits cfg \<and>
           bit field (p div Dimensions cfg)"
  by (simp add: params_MortonNDLutEncoder bit_to_T_table_lookup [OF assms])

lemma LookupField_more_bit:
  assumes "valid_config cfg"
  shows "bit (LookupField (MortonNDLutEncoder cfg) field (i # j # args)) p \<longleftrightarrow>
           p < digits (T cfg) \<and>
           (Dimensions cfg * LutBits cfg \<le> p \<and>
              bit (LookupField (MortonNDLutEncoder cfg)
                     (to_T cfg (drop_bit (LutBits cfg) field)) (j # args))
                (p - Dimensions cfg * LutBits cfg)
            \<or> Dimensions cfg dvd p \<and> p div Dimensions cfg < LutBits cfg \<and>
              bit field (p div Dimensions cfg))"
  unfolding LookupField.simps params_MortonNDLutEncoder valid_config_products(2) [OF assms]
    to_size_t_index [OF assms] bit_to_T [of cfg "_ OR _"] bit_or_iff bit_push_bit_iff
    bit_to_T_table_lookup [OF assms]
  by simp

lemma LookupField_bit:
  assumes v: "valid_config cfg" and ne: "idxs \<noteq> []"
  shows "bit (LookupField (MortonNDLutEncoder cfg) field idxs) p \<longleftrightarrow>
           p < digits (T cfg) \<and> Dimensions cfg dvd p \<and>
           p div Dimensions cfg < length idxs * LutBits cfg \<and>
           bit field (p div Dimensions cfg)"
  using ne
proof (induction idxs arbitrary: field p rule: list_nonempty_induct)
  case (single i)
  have "p < digits (T cfg)"
    if "Dimensions cfg dvd p" and "p div Dimensions cfg < LutBits cfg"
  proof -
    have "p < Dimensions cfg * LutBits cfg"
      using valid_configD(1) [OF v] that by (rule dvd_div_less_mult)
    also have "\<dots> \<le> digits (T cfg)" by (rule valid_configD(8) [OF v])
    finally show ?thesis .
  qed
  then show ?case
    unfolding LookupField_single_bit [OF v] by auto
next
  case (cons i rest)
  define D where "D = Dimensions cfg"
  define L where "L = LutBits cfg"
  define W where "W = digits (T cfg)"
  define n where "n = length rest"
  have D0: "0 < D" unfolding D_def by (rule valid_configD(1) [OF v])
  obtain j args where rest: "rest = j # args"
    using cons.hyps by (cases rest) auto
  have IH: "bit (LookupField (MortonNDLutEncoder cfg) (to_T cfg (drop_bit L field)) rest) q
      \<longleftrightarrow> q < W \<and> D dvd q \<and> q div D < n * L \<and> q div D < W \<and> bit field (L + q div D)"
    for q
    unfolding cons.IH bit_to_T bit_drop_bit_eq D_def L_def W_def n_def by auto
  have E: "bit (LookupField (MortonNDLutEncoder cfg) field (i # rest)) p \<longleftrightarrow>
      p < W \<and> (D * L \<le> p \<and>
          bit (LookupField (MortonNDLutEncoder cfg) (to_T cfg (drop_bit L field)) rest)
            (p - D * L)
        \<or> D dvd p \<and> p div D < L \<and> bit field (p div D))"
    unfolding rest D_def L_def W_def by (rule LookupField_more_bit [OF v])
  have G: "(p < W \<and> (D * L \<le> p \<and> (p - D * L < W \<and> D dvd (p - D * L) \<and>
             (p - D * L) div D < n * L \<and> (p - D * L) div D < W \<and>
             bit field (L + (p - D * L) div D))
        \<or> D dvd p \<and> p div D < L \<and> bit field (p div D)))
      \<longleftrightarrow> p < W \<and> D dvd p \<and> p div D < Suc n * L \<and> bit field (p div D)"
  proof (cases "D dvd p")
    case False
    have "\<not> D dvd (p - D * L)" if "D * L \<le> p"
    proof
      assume "D dvd (p - D * L)"
      then have "D dvd (p - D * L) + D * L" by simp
      with that False show False by simp
    qed
    with False show ?thesis by blast
  next
    case True
    define m where "m = p div D"
    have p: "p = D * m" using True by (simp add: m_def)
    show ?thesis
    proof (cases "m < L")
      case True
      then have "p < D * L" unfolding p using D0 by simp
      moreover have "m < Suc n * L" using True by simp
      ultimately show ?thesis using \<open>D dvd p\<close> True unfolding m_def [symmetric] by auto
    next
      case False
      then have Lm: "L \<le> m" by simp
      then have le: "D * L \<le> p" unfolding p by simp
      have q: "p - D * L = D * (m - L)" unfolding p by (simp add: diff_mult_distrib2)
      have qd: "(p - D * L) div D = m - L" unfolding q using D0 by simp
      have qv: "D dvd (p - D * L)" unfolding q by simp
      have a: "L + (m - L) = m" using Lm by simp
      have b: "m - L < n * L \<longleftrightarrow> m < Suc n * L" using Lm by auto
      have c: "p < W \<Longrightarrow> p - D * L < W" by simp
      have "m \<le> p" unfolding p using D0 by simp
      then have d: "p < W \<Longrightarrow> m - L < W" by simp
      show ?thesis
        unfolding qd a b m_def [symmetric] using False le qv c d \<open>D dvd p\<close> by blast
    qed
  qed
  show ?case
    using G unfolding E IH
    unfolding D_def L_def W_def n_def by simp
qed

section \<open>Bits of the encoding\<close>

lemma length_make_index_sequence: "length (make_index_sequence n) = n"
  by (simp add: make_index_sequence_def)

lemma make_index_sequence_ChunkCount_nonempty:
  "make_index_sequence (ChunkCount cfg) \<noteq> []"
  by (simp add: make_index_sequence_def ChunkCount_def)

lemma FieldBits_le_chunks:
  assumes "0 < LutBits cfg"
  shows "FieldBits cfg \<le> ChunkCount cfg * LutBits cfg"
proof -
  have "FieldBits cfg - 1 < LutBits cfg + LutBits cfg * ((FieldBits cfg - 1) div LutBits cfg)"
    using assms by (rule dividend_less_times_div)
  then show ?thesis
    by (simp add: ChunkCount_def algebra_simps)
qed

text \<open>The bits of one field's contribution: all its chunks, looked up and combined.\<close>

lemma LookupField_chunks_bit:
  assumes v: "valid_config cfg"
  shows "bit (LookupField (MortonNDLutEncoder cfg) (to_T cfg field)
              (make_index_sequence (ChunkCount cfg))) p \<longleftrightarrow>
           p < digits (T cfg) \<and> Dimensions cfg dvd p \<and>
           p div Dimensions cfg < ChunkCount cfg * LutBits cfg \<and>
           bit field (p div Dimensions cfg)"
proof -
  have "p div Dimensions cfg \<le> p" by simp
  then have "p < digits (T cfg) \<Longrightarrow> p div Dimensions cfg < digits (T cfg)"
    by (rule le_less_trans)
  then show ?thesis
    unfolding LookupField_bit [OF v make_index_sequence_ChunkCount_nonempty]
      length_make_index_sequence bit_to_T
    by blast
qed

lemma EncodeInternal_bit:
  assumes v: "valid_config cfg" and ne: "fs \<noteq> []" and len: "length fs \<le> Dimensions cfg"
  shows "bit (EncodeInternal (MortonNDLutEncoder cfg) fs) p \<longleftrightarrow>
           p < digits (T cfg) \<and> p mod Dimensions cfg < length fs \<and>
           p div Dimensions cfg < ChunkCount cfg * LutBits cfg \<and>
           bit (fs ! (p mod Dimensions cfg)) (p div Dimensions cfg)"
  using ne len
proof (induction fs arbitrary: p rule: list_nonempty_induct)
  case (single f)
  have "p mod Dimensions cfg < 1 \<longleftrightarrow> Dimensions cfg dvd p"
    by (auto simp add: dvd_eq_mod_eq_0)
  then show ?case
    unfolding EncodeInternal.simps params_MortonNDLutEncoder LookupField_chunks_bit [OF v]
    by auto
next
  case (cons f1 rest)
  define D where "D = Dimensions cfg"
  define W where "W = digits (T cfg)"
  define C where "C = ChunkCount cfg * LutBits cfg"
  define n where "n = length rest"
  have nD: "Suc n \<le> D" using cons.prems by (simp add: n_def D_def)
  obtain f fs' where rest: "rest = f # fs'"
    using cons.hyps by (cases rest) auto
  have IH: "bit (EncodeInternal (MortonNDLutEncoder cfg) rest) q \<longleftrightarrow>
      q < W \<and> q mod D < n \<and> q div D < C \<and> bit (rest ! (q mod D)) (q div D)" for q
    using cons.IH [of q] cons.prems by (simp add: D_def W_def C_def n_def)
  have E: "bit (EncodeInternal (MortonNDLutEncoder cfg) (f1 # rest)) p \<longleftrightarrow>
      p < W \<and> (1 \<le> p \<and> bit (EncodeInternal (MortonNDLutEncoder cfg) rest) (p - 1)
        \<or> p < W \<and> D dvd p \<and> p div D < C \<and> bit f1 (p div D))"
    unfolding rest EncodeInternal.simps params_MortonNDLutEncoder bit_to_T bit_or_iff
      bit_push_bit_iff LookupField_chunks_bit [OF v] D_def W_def C_def
    by simp
  have G: "(p < W \<and> (1 \<le> p \<and> (p - 1 < W \<and> (p - 1) mod D < n \<and> (p - 1) div D < C \<and>
              bit (rest ! ((p - 1) mod D)) ((p - 1) div D))
        \<or> p < W \<and> D dvd p \<and> p div D < C \<and> bit f1 (p div D)))
      \<longleftrightarrow> p < W \<and> p mod D < Suc n \<and> p div D < C \<and> bit ((f1 # rest) ! (p mod D)) (p div D)"
  proof (cases p)
    case 0
    then show ?thesis by simp
  next
    case (Suc q)
    show ?thesis
    proof (cases "Suc (q mod D) = D")
      case True
      then have m: "Suc q mod D = 0" by (simp add: mod_Suc)
      then have dv: "D dvd p" unfolding Suc by (simp add: dvd_eq_mod_eq_0)
      have "\<not> q mod D < n" using True nD by simp
      then show ?thesis using dv m unfolding Suc by simp
    next
      case False
      then have m: "Suc q mod D = Suc (q mod D)" by (simp add: mod_Suc)
      then have d: "Suc q div D = q div D" by (simp add: div_Suc)
      have dv: "\<not> D dvd Suc q" using m by (simp add: dvd_eq_mod_eq_0)
      have lt: "Suc q < W \<Longrightarrow> q < W" by simp
      show ?thesis unfolding Suc m d using dv lt by auto
    qed
  qed
  show ?case
    using G unfolding E IH
    unfolding D_def W_def C_def n_def by simp
qed

lemma Encode_eq_Some:
  assumes "length fs = Dimensions cfg"
  shows "Encode (MortonNDLutEncoder cfg) fs = Some (EncodeInternal (MortonNDLutEncoder cfg) fs)"
  using assms by (simp add: Encode_def params_MortonNDLutEncoder)

lemma EncodeInternal_all_bit:
  assumes v: "valid_config cfg" and len: "length fs = Dimensions cfg"
  shows "bit (EncodeInternal (MortonNDLutEncoder cfg) fs) p \<longleftrightarrow>
           p < digits (T cfg) \<and> p div Dimensions cfg < ChunkCount cfg * LutBits cfg \<and>
           bit (fs ! (p mod Dimensions cfg)) (p div Dimensions cfg)"
proof -
  have D0: "0 < Dimensions cfg" by (rule valid_configD(1) [OF v])
  then have ne: "fs \<noteq> []" using len by auto
  have le: "length fs \<le> Dimensions cfg" using len by simp
  have "p mod Dimensions cfg < length fs" using D0 len by simp
  then show ?thesis
    unfolding EncodeInternal_bit [OF v ne le] by simp
qed

lemma bit_nat_less_exp:
  fixes x :: nat
  assumes "x < 2 ^ n" and "bit x m"
  shows "m < n"
proof -
  from assms(1) have t: "take_bit n x = x" by (rule take_bit_nat_eq_self)
  have "bit (take_bit n x) m" unfolding t by (rule assms(2))
  then show ?thesis unfolding bit_take_bit_iff by (rule conjunct1)
qed

lemma div_less_imp_less_mult:
  fixes d :: nat
  assumes "0 < d" and "p div d < n"
  shows "p < d * n"
proof -
  have "p div d < n" by (rule assms(2))
  then show ?thesis using assms(1) by (simp add: div_less_iff_less_mult mult.commute)
qed

text \<open>For in-range fields the bits do not depend on the chunk width or on the width of \<open>T\<close>.\<close>

lemma EncodeInternal_in_range_bit:
  assumes v: "valid_config cfg" and len: "length fs = Dimensions cfg"
    and r: "\<forall>f \<in> set fs. f < 2 ^ FieldBits cfg"
  shows "bit (EncodeInternal (MortonNDLutEncoder cfg) fs) p \<longleftrightarrow>
           p div Dimensions cfg < FieldBits cfg \<and>
           bit (fs ! (p mod Dimensions cfg)) (p div Dimensions cfg)"
proof -
  have D0: "0 < Dimensions cfg" by (rule valid_configD(1) [OF v])
  have "fs ! (p mod Dimensions cfg) \<in> set fs" using D0 len by simp
  then have fr: "fs ! (p mod Dimensions cfg) < 2 ^ FieldBits cfg" using r by blast
  have a: "p div Dimensions cfg < FieldBits cfg"
    if "bit (fs ! (p mod Dimensions cfg)) (p div Dimensions cfg)"
    using fr that by (rule bit_nat_less_exp)
  have FC: "FieldBits cfg \<le> ChunkCount cfg * LutBits cfg"
    using valid_configD(3) [OF v] by (rule FieldBits_le_chunks)
  have b: "p < digits (T cfg)" if "p div Dimensions cfg < FieldBits cfg"
  proof -
    have "p < Dimensions cfg * FieldBits cfg"
      using D0 that by (rule div_less_imp_less_mult)
    also have "\<dots> \<le> digits (T cfg)" by (rule valid_configD(7) [OF v])
    finally show ?thesis .
  qed
  have c: "p div Dimensions cfg < ChunkCount cfg * LutBits cfg"
    if "p div Dimensions cfg < FieldBits cfg"
    using that FC by (rule less_le_trans)
  show ?thesis
    unfolding EncodeInternal_all_bit [OF v len] using a b c by blast
qed

lemma naive_interleave_field_bit:
  "bit (naive_interleave_field D k f n) p \<longleftrightarrow> (\<exists>b<n. p = k + D * b \<and> bit f b)"
proof (induction n)
  case 0
  show ?case by simp
next
  case (Suc n)
  have "bit (if bit f n then push_bit (k + D * n) (1::nat) else 0) p \<longleftrightarrow>
      p = k + D * n \<and> bit f n"
    by (auto simp add: bit_push_bit_iff bit_1_iff bit_exp_iff)
  then show ?case
    unfolding naive_interleave_field.simps bit_or_iff Suc.IH less_Suc_eq by blast
qed

lemma naive_interleave_fields_bit:
  "bit (naive_interleave_fields D F fs n) p \<longleftrightarrow>
     (\<exists>k<n. \<exists>b<F. p = k + D * b \<and> bit (fs ! k) b)"
proof (induction n)
  case 0
  show ?case by simp
next
  case (Suc n)
  show ?case
    unfolding naive_interleave_fields.simps bit_or_iff Suc.IH naive_interleave_field_bit
      less_Suc_eq by blast
qed

lemma naive_interleave_bit:
  assumes "0 < D"
  shows "bit (naive_interleave D F fs) p \<longleftrightarrow> p div D < F \<and> bit (fs ! (p mod D)) (p div D)"
proof -
  have "(\<exists>k<D. \<exists>b<F. p = k + D * b \<and> bit (fs ! k) b) \<longleftrightarrow>
      p div D < F \<and> bit (fs ! (p mod D)) (p div D)"
  proof
    assume "\<exists>k<D. \<exists>b<F. p = k + D * b \<and> bit (fs ! k) b"
    then obtain k b where k: "k < D" and b: "b < F" and p: "p = k + D * b"
      and bt: "bit (fs ! k) b" by blast
    have "p mod D = k" and "p div D = b" using k by (simp_all add: p)
    with b bt show "p div D < F \<and> bit (fs ! (p mod D)) (p div D)" by simp
  next
    assume r: "p div D < F \<and> bit (fs ! (p mod D)) (p div D)"
    have "p mod D < D" using assms by simp
    moreover have "p = p mod D + D * (p div D)" by simp
    ultimately show "\<exists>k<D. \<exists>b<F. p = k + D * b \<and> bit (fs ! k) b"
      using r by blast
  qed
  then show ?thesis
    unfolding naive_interleave_def naive_interleave_fields_bit .
qed

lemma EncodeInternal_eq_naive_interleave:
  assumes v: "valid_config cfg" and len: "length fs = Dimensions cfg"
    and r: "\<forall>f \<in> set fs. f < 2 ^ FieldBits cfg"
  shows "EncodeInternal (MortonNDLutEncoder cfg) fs =
           naive_interleave (Dimensions cfg) (FieldBits cfg) fs"
  by (rule bit_eqI)
    (simp only: EncodeInternal_in_range_bit [OF v len r]
      naive_interleave_bit [OF valid_configD(1) [OF v]])

section \<open>Correctness of the encoding\<close>

lemma naive_interleave_field_unfold:
  "0 < n \<Longrightarrow> naive_interleave_field D k f n =
     naive_interleave_field D k f (n - 1) OR
     (if bit f (n - 1) then push_bit (k + D * (n - 1)) 1 else 0)"
  by (cases n) simp_all

lemma naive_interleave_fields_unfold:
  "0 < n \<Longrightarrow> naive_interleave_fields D F fs n =
     naive_interleave_fields D F fs (n - 1) OR naive_interleave_field D (n - 1) (fs ! (n - 1)) F"
  by (cases n) simp_all

lemmas naive_interleave_eval =
  naive_interleave_def naive_interleave_fields_unfold naive_interleave_field_unfold
  bit_Suc_0_iff

lemmas valid_config_eval =
  valid_config_def static_asserts_Nil_iff LutValueWidth_def size_mul_def to_size_t_def
  size_t_digits_def uint8_t_def uint16_t_def uint32_t_def uint64_t_def

text \<open>
  C1. For every valid configuration and every tuple of \<open>Dimensions\<close> fields that use no
  more than \<open>FieldBits\<close> low bits, \<open>Encode\<close> returns a value whose bit
  \<open>k + Dimensions * b\<close> is bit \<open>b\<close> of field \<open>k\<close> for all \<open>k < Dimensions\<close> and
  \<open>b < FieldBits\<close>, and whose bits from \<open>Dimensions * FieldBits\<close> upwards are zero: the
  value the reference interleaver computes.
\<close>

theorem Encode_interleaves:
  assumes "valid_config cfg" and "length fs = Dimensions cfg"
    and "\<forall>f \<in> set fs. f < 2 ^ FieldBits cfg"
  shows "\<exists>r. Encode (MortonNDLutEncoder cfg) fs = Some r \<and>
           (\<forall>k < Dimensions cfg. \<forall>b < FieldBits cfg.
              bit r (k + Dimensions cfg * b) = bit (fs ! k) b) \<and>
           (\<forall>p \<ge> Dimensions cfg * FieldBits cfg. \<not> bit r p) \<and>
           r = naive_interleave (Dimensions cfg) (FieldBits cfg) fs"
proof -
  define r where "r = EncodeInternal (MortonNDLutEncoder cfg) fs"
  have D0: "0 < Dimensions cfg" by (rule valid_configD(1) [OF assms(1)])
  have B: "bit r p \<longleftrightarrow> p div Dimensions cfg < FieldBits cfg \<and>
      bit (fs ! (p mod Dimensions cfg)) (p div Dimensions cfg)" for p
    unfolding r_def by (rule EncodeInternal_in_range_bit [OF assms])
  have 1: "Encode (MortonNDLutEncoder cfg) fs = Some r"
    unfolding r_def using assms(2) by (rule Encode_eq_Some)
  have 2: "bit r (k + Dimensions cfg * b) = bit (fs ! k) b"
    if "k < Dimensions cfg" and "b < FieldBits cfg" for k b
    unfolding B using that by simp
  have 3: "\<not> bit r p" if "Dimensions cfg * FieldBits cfg \<le> p" for p
  proof -
    have "\<not> p div Dimensions cfg < FieldBits cfg"
    proof
      assume "p div Dimensions cfg < FieldBits cfg"
      with D0 have "p < Dimensions cfg * FieldBits cfg" by (rule div_less_imp_less_mult)
      with that show False by simp
    qed
    then show ?thesis unfolding B by simp
  qed
  have 4: "r = naive_interleave (Dimensions cfg) (FieldBits cfg) fs"
    unfolding r_def by (rule EncodeInternal_eq_naive_interleave [OF assms])
  from 1 2 3 4 show ?thesis by blast
qed

theorem Encode_interleaves_witness:
  "valid_config \<lparr>Dimensions = 3, FieldBits = 10, LutBits = 4, T = uint32_t\<rparr> \<and>
   length [513, 2, 1023 :: nat] = 3 \<and>
   Encode (MortonNDLutEncoder \<lparr>Dimensions = 3, FieldBits = 10, LutBits = 4, T = uint32_t\<rparr>)
     [513, 2, 1023] = Some 747784501"
proof -
  define cfg where "cfg = \<lparr>Dimensions = 3, FieldBits = 10, LutBits = 4, T = uint32_t\<rparr>"
  have v: "valid_config cfg"
    by (simp add: cfg_def valid_config_eval)
  have l: "length [513, 2, 1023 :: nat] = Dimensions cfg"
    by (simp add: cfg_def)
  have r: "\<forall>f \<in> set [513, 2, 1023 :: nat]. f < 2 ^ FieldBits cfg"
    by (simp add: cfg_def)
  have n: "naive_interleave (Dimensions cfg) (FieldBits cfg) [513, 2, 1023] = 747784501"
    by (simp add: cfg_def naive_interleave_eval)
  have "Encode (MortonNDLutEncoder cfg) [513, 2, 1023] = Some 747784501"
    using Encode_interleaves [OF v l r] unfolding n by blast
  with v show ?thesis unfolding cfg_def by simp
qed

text \<open>
  C2. For fixed \<open>Dimensions\<close> and \<open>FieldBits\<close> and a tuple of in-range fields, two valid
  configurations that differ in \<open>LutBits\<close> return the same value from \<open>Encode\<close>.
\<close>

theorem Encode_chunking_invariant:
  assumes "valid_config cfg" and "valid_config cfg'"
    and "Dimensions cfg' = Dimensions cfg" and "FieldBits cfg' = FieldBits cfg"
    and "length fs = Dimensions cfg" and "\<forall>f \<in> set fs. f < 2 ^ FieldBits cfg"
  shows "\<exists>r. Encode (MortonNDLutEncoder cfg) fs = Some r \<and>
           Encode (MortonNDLutEncoder cfg') fs = Some r"
proof -
  have l': "length fs = Dimensions cfg'" using assms(3,5) by simp
  have r': "\<forall>f \<in> set fs. f < 2 ^ FieldBits cfg'" using assms(4,6) by simp
  have "EncodeInternal (MortonNDLutEncoder cfg') fs =
      naive_interleave (Dimensions cfg') (FieldBits cfg') fs"
    using assms(2) l' r' by (rule EncodeInternal_eq_naive_interleave)
  also have "\<dots> = naive_interleave (Dimensions cfg) (FieldBits cfg) fs"
    using assms(3,4) by simp
  also have "\<dots> = EncodeInternal (MortonNDLutEncoder cfg) fs"
    using assms(1,5,6) by (rule EncodeInternal_eq_naive_interleave [symmetric])
  finally have "EncodeInternal (MortonNDLutEncoder cfg') fs =
      EncodeInternal (MortonNDLutEncoder cfg) fs" .
  then show ?thesis
    unfolding Encode_eq_Some [OF assms(5)] Encode_eq_Some [OF l'] by simp
qed

theorem Encode_chunking_invariant_witness:
  "valid_config \<lparr>Dimensions = 2, FieldBits = 16, LutBits = 16, T = uint32_t\<rparr> \<and>
   valid_config \<lparr>Dimensions = 2, FieldBits = 16, LutBits = 1, T = uint32_t\<rparr> \<and>
   (\<exists>r. Encode (MortonNDLutEncoder
            \<lparr>Dimensions = 2, FieldBits = 16, LutBits = 16, T = uint32_t\<rparr>) [65535, 4660] = Some r \<and>
        Encode (MortonNDLutEncoder
            \<lparr>Dimensions = 2, FieldBits = 16, LutBits = 1, T = uint32_t\<rparr>) [65535, 4660] = Some r)"
proof -
  define cfg where "cfg = \<lparr>Dimensions = 2, FieldBits = 16, LutBits = 16, T = uint32_t\<rparr>"
  define cfg' where "cfg' = \<lparr>Dimensions = 2, FieldBits = 16, LutBits = 1, T = uint32_t\<rparr>"
  have v: "valid_config cfg" by (simp add: cfg_def valid_config_eval)
  have v': "valid_config cfg'" by (simp add: cfg'_def valid_config_eval)
  have d: "Dimensions cfg' = Dimensions cfg" by (simp add: cfg_def cfg'_def)
  have f: "FieldBits cfg' = FieldBits cfg" by (simp add: cfg_def cfg'_def)
  have l: "length [65535, 4660 :: nat] = Dimensions cfg" by (simp add: cfg_def)
  have r: "\<forall>f \<in> set [65535, 4660 :: nat]. f < 2 ^ FieldBits cfg" by (simp add: cfg_def)
  show ?thesis
    using v v' Encode_chunking_invariant [OF v v' d f l r] unfolding cfg_def cfg'_def
    by blast
qed

section \<open>Dirty inputs and the width of the table's entries\<close>

text \<open>
  C9. For every valid configuration and arbitrary fields, \<open>Encode\<close> depends only on the
  low \<open>ChunkCount * LutBits\<close> bits of each field: clearing the other bits of every field
  with the mask \<open>2 ^ (ChunkCount * LutBits) - 1\<close> does not change the result.
\<close>

theorem Encode_ignores_high_bits:
  assumes "valid_config cfg" and "length fs = Dimensions cfg"
  shows "\<exists>r. Encode (MortonNDLutEncoder cfg) fs = Some r \<and>
           Encode (MortonNDLutEncoder cfg)
             (map (\<lambda>f. f AND (2 ^ (ChunkCount cfg * LutBits cfg) - 1)) fs) = Some r"
proof -
  define C where "C = ChunkCount cfg * LutBits cfg"
  define gs where "gs = map (\<lambda>f. f AND (2 ^ C - 1)) fs"
  have lg: "length gs = Dimensions cfg" using assms(2) by (simp add: gs_def)
  have D0: "0 < Dimensions cfg" by (rule valid_configD(1) [OF assms(1)])
  have g: "bit (gs ! (p mod Dimensions cfg)) m \<longleftrightarrow>
      bit (fs ! (p mod Dimensions cfg)) m \<and> m < C" for p m
  proof -
    have "p mod Dimensions cfg < length fs" using D0 assms(2) by simp
    then have "gs ! (p mod Dimensions cfg) = fs ! (p mod Dimensions cfg) AND mask C"
      by (simp add: gs_def mask_eq_exp_minus_1)
    then show ?thesis by (simp add: bit_and_iff bit_mask_iff)
  qed
  have "EncodeInternal (MortonNDLutEncoder cfg) gs = EncodeInternal (MortonNDLutEncoder cfg) fs"
  proof (rule bit_eqI)
    fix p
    show "bit (EncodeInternal (MortonNDLutEncoder cfg) gs) p \<longleftrightarrow>
        bit (EncodeInternal (MortonNDLutEncoder cfg) fs) p"
      unfolding EncodeInternal_all_bit [OF assms(1) lg]
        EncodeInternal_all_bit [OF assms(1) assms(2)] g C_def
      by blast
  qed
  then have 2: "Encode (MortonNDLutEncoder cfg) gs =
      Some (EncodeInternal (MortonNDLutEncoder cfg) fs)"
    using Encode_eq_Some [OF lg] by simp
  have 1: "Encode (MortonNDLutEncoder cfg) fs =
      Some (EncodeInternal (MortonNDLutEncoder cfg) fs)"
    by (rule Encode_eq_Some [OF assms(2)])
  from 1 2 show ?thesis unfolding gs_def C_def by blast
qed

theorem Encode_ignores_high_bits_witness:
  "valid_config \<lparr>Dimensions = 3, FieldBits = 21, LutBits = 11, T = uint64_t\<rparr> \<and>
   (\<exists>r. Encode (MortonNDLutEncoder
            \<lparr>Dimensions = 3, FieldBits = 21, LutBits = 11, T = uint64_t\<rparr>)
          [6291461, 7, 4194304] = Some r \<and>
        Encode (MortonNDLutEncoder
            \<lparr>Dimensions = 3, FieldBits = 21, LutBits = 11, T = uint64_t\<rparr>)
          [2097157, 7, 0] = Some r)"
proof -
  define cfg where "cfg = \<lparr>Dimensions = 3, FieldBits = 21, LutBits = 11, T = uint64_t\<rparr>"
  have v: "valid_config cfg" by (simp add: cfg_def valid_config_eval)
  have l: "length [6291461, 7, 4194304 :: nat] = Dimensions cfg" by (simp add: cfg_def)
  have m: "map (\<lambda>f. f AND (2 ^ (ChunkCount cfg * LutBits cfg) - 1)) [6291461, 7, 4194304 :: nat]
      = [2097157, 7, 0]"
    by (simp add: cfg_def ChunkCount_def)
  show ?thesis
    using v Encode_ignores_high_bits [OF v l] unfolding m unfolding cfg_def by blast
qed

text \<open>
  C10. For every valid configuration and every table index \<open>i < 2 ^ LutBits\<close>, the
  spreader's result for \<open>i\<close> is below \<open>2 ^ ((LutBits - 1) * Dimensions + 1)\<close>, so it fits
  in \<open>Dimensions * LutBits\<close> bits and the conversion to \<open>LutValue\<close> does not change it.
\<close>

theorem SplitByN_fits_LutValue:
  assumes "valid_config cfg" and "i < 2 ^ LutBits cfg"
  shows "SplitByN (LutBits cfg) i (Dimensions cfg)
           < 2 ^ ((LutBits cfg - 1) * Dimensions cfg + 1) \<and>
         SplitByN (LutBits cfg) i (Dimensions cfg) mod 2 ^ (Dimensions cfg * LutBits cfg)
           = SplitByN (LutBits cfg) i (Dimensions cfg) \<and>
         to_LutValue cfg (SplitByN (LutBits cfg) i (Dimensions cfg))
           = SplitByN (LutBits cfg) i (Dimensions cfg)"
proof -
  define s where "s = SplitByN (LutBits cfg) i (Dimensions cfg)"
  have le: "p \<le> (LutBits cfg - 1) * Dimensions cfg" if "bit s p" for p
    using assms(1) that unfolding s_def by (rule valid_config_SplitByN_bit_le)
  have "p < (LutBits cfg - 1) * Dimensions cfg + 1" if "bit s p" for p
    using le [OF that] by simp
  then have "take_bit ((LutBits cfg - 1) * Dimensions cfg + 1) s = s"
    by (rule take_bit_eq_self_bits)
  then have 1: "s < 2 ^ ((LutBits cfg - 1) * Dimensions cfg + 1)"
    by (simp only: take_bit_nat_eq_self_iff)
  have "(LutBits cfg - 1) * Dimensions cfg < LutBits cfg * Dimensions cfg"
    using valid_configD(1) [OF assms(1)] valid_configD(3) [OF assms(1)] by simp
  then have "Suc ((LutBits cfg - 1) * Dimensions cfg) \<le> LutBits cfg * Dimensions cfg"
    by (rule Suc_leI)
  then have "(LutBits cfg - 1) * Dimensions cfg + 1 \<le> Dimensions cfg * LutBits cfg"
    by (simp only: Suc_eq_plus1 mult.commute [of "LutBits cfg" "Dimensions cfg"])
  then have "(2::nat) ^ ((LutBits cfg - 1) * Dimensions cfg + 1)
      \<le> 2 ^ (Dimensions cfg * LutBits cfg)"
    by (intro power_increasing) simp_all
  with 1 have "s < 2 ^ (Dimensions cfg * LutBits cfg)" by (rule less_le_trans)
  then have 2: "s mod 2 ^ (Dimensions cfg * LutBits cfg) = s" by simp
  have 3: "to_LutValue cfg s = s"
    using LutSplitByN_eq [OF assms(1), of i] unfolding LutSplitByN_def s_def .
  from 1 2 3 show ?thesis unfolding s_def by blast
qed

lemma SplitByN_unfold:
  "1 < n \<Longrightarrow> SplitByN n x s =
     to_size_t (push_bit s (SplitByN (n - 1) (drop_bit 1 x) s)) OR (x AND 1)"
proof -
  assume "1 < n"
  then obtain k where "n = Suc (Suc k)" by (cases n; cases "n - 1") auto
  then show ?thesis by simp
qed

lemmas SplitByN_eval = SplitByN_unfold to_size_t_def size_t_digits_def

theorem SplitByN_fits_LutValue_witness:
  "valid_config \<lparr>Dimensions = 3, FieldBits = 10, LutBits = 4, T = uint32_t\<rparr> \<and>
   (15::nat) < 2 ^ 4 \<and> SplitByN 4 15 3 = 585 \<and> SplitByN 4 15 3 < 2 ^ 10 \<and>
   to_LutValue \<lparr>Dimensions = 3, FieldBits = 10, LutBits = 4, T = uint32_t\<rparr> (SplitByN 4 15 3)
     = SplitByN 4 15 3"
proof -
  define cfg where "cfg = \<lparr>Dimensions = 3, FieldBits = 10, LutBits = 4, T = uint32_t\<rparr>"
  have v: "valid_config cfg" by (simp add: cfg_def valid_config_eval)
  have i: "(15::nat) < 2 ^ LutBits cfg" by (simp add: cfg_def)
  have e: "SplitByN 4 15 3 = 585" by (simp add: SplitByN_eval)
  show ?thesis
    using v e SplitByN_fits_LutValue [OF v i] unfolding cfg_def by simp
qed

section \<open>The table and the chunk count\<close>

lemma Construct_valid:
  assumes "valid_config cfg"
  shows "Construct cfg = Inr (MortonNDLutEncoder cfg)"
  using assms by (simp add: Construct_def valid_config_def)

text \<open>
  C4. For every valid configuration, construction succeeds and the instance's lookup
  table has exactly \<open>2 ^ LutBits\<close> entries, entry \<open>i\<close> being the spreader's result for
  \<open>i\<close> with \<open>LutBits\<close> bits and stride \<open>Dimensions\<close>. The table is a constant member:
  \<open>Encode\<close> reads it and returns a value only, so no operation of the model changes it.
\<close>

theorem LookupTable_entries:
  assumes "valid_config cfg"
  shows "Construct cfg = Inr (MortonNDLutEncoder cfg) \<and>
         length (LookupTable (MortonNDLutEncoder cfg)) = 2 ^ LutBits cfg \<and>
         (\<forall>i < 2 ^ LutBits cfg.
            LookupTable (MortonNDLutEncoder cfg) ! i =
              SplitByN (LutBits cfg) i (Dimensions cfg))"
  using Construct_valid [OF assms] length_LookupTable [OF assms] nth_LookupTable [OF assms]
  by blast

theorem LookupTable_entries_witness:
  "valid_config \<lparr>Dimensions = 2, FieldBits = 8, LutBits = 4, T = uint16_t\<rparr> \<and>
   length (LookupTable (MortonNDLutEncoder
     \<lparr>Dimensions = 2, FieldBits = 8, LutBits = 4, T = uint16_t\<rparr>)) = 16 \<and>
   LookupTable (MortonNDLutEncoder
     \<lparr>Dimensions = 2, FieldBits = 8, LutBits = 4, T = uint16_t\<rparr>) ! 11 = 69"
proof -
  define cfg where "cfg = \<lparr>Dimensions = 2, FieldBits = 8, LutBits = 4, T = uint16_t\<rparr>"
  have v: "valid_config cfg" by (simp add: cfg_def valid_config_eval)
  have e: "SplitByN 4 11 2 = 69" by (simp add: SplitByN_eval)
  have "length (LookupTable (MortonNDLutEncoder cfg)) = 2 ^ LutBits cfg"
    and "\<forall>i < 2 ^ LutBits cfg. LookupTable (MortonNDLutEncoder cfg) ! i =
      SplitByN (LutBits cfg) i (Dimensions cfg)"
    using LookupTable_entries [OF v] by blast+
  then have "length (LookupTable (MortonNDLutEncoder cfg)) = 16"
    and "LookupTable (MortonNDLutEncoder cfg) ! 11 = 69"
    using e by (simp_all add: cfg_def)
  with v show ?thesis unfolding cfg_def by blast
qed

lemma length_LookupField_indices:
  "idxs \<noteq> [] \<Longrightarrow> length (LookupField_indices e field idxs) = length idxs"
proof (induction idxs arbitrary: field rule: list_nonempty_induct)
  case (single i)
  show ?case by simp
next
  case (cons i rest)
  obtain j args where rest: "rest = j # args"
    using cons.hyps by (cases rest) auto
  show ?case
    using cons.IH unfolding rest by simp
qed

lemma ChunkCount_ceiling:
  assumes "0 < FieldBits cfg" and "0 < LutBits cfg"
  shows "\<lceil>real (FieldBits cfg) / real (LutBits cfg)\<rceil> = int (ChunkCount cfg)"
proof (rule ceiling_unique)
  define F where "F = FieldBits cfg"
  define L where "L = LutBits cfg"
  define q where "q = (F - 1) div L"
  have F0: "0 < F" and L0: "0 < L" using assms by (simp_all add: F_def L_def)
  have C: "ChunkCount cfg = 1 + q" by (simp add: ChunkCount_def q_def F_def L_def)
  have "q * L \<le> F - 1" unfolding q_def by simp
  then have lo: "q * L < F" using F0 by simp
  have "F - 1 < L + L * q" unfolding q_def using L0 by (rule dividend_less_times_div)
  then have hi: "F \<le> (1 + q) * L" by (simp add: algebra_simps)
  have "real q * real L < real F" using lo by (metis of_nat_less_iff of_nat_mult)
  then have "real q < real F / real L" using L0 by (simp add: pos_less_divide_eq)
  then show "of_int (int (ChunkCount cfg)) - 1 < real (FieldBits cfg) / real (LutBits cfg)"
    unfolding C F_def L_def by simp
  have "real F \<le> real (1 + q) * real L" using hi by (metis of_nat_le_iff of_nat_mult)
  then have "real F / real L \<le> real (1 + q)" using L0 by (simp add: pos_divide_le_eq)
  then show "real (FieldBits cfg) / real (LutBits cfg) \<le> of_int (int (ChunkCount cfg))"
    unfolding C F_def L_def by simp
qed

text \<open>
  C8. For \<open>FieldBits > 0\<close> and \<open>LutBits > 0\<close>, \<open>ChunkCount\<close>, computed as
  \<open>1 + (FieldBits - 1) / LutBits\<close> with truncating division, is the ceiling of
  \<open>FieldBits / LutBits\<close>, and it is the number of table lookups \<open>Encode\<close> performs for
  one field.
\<close>

theorem ChunkCount_is_ceiling:
  assumes "0 < FieldBits (params e)" and "0 < LutBits (params e)"
  shows "ChunkCount (params e) = 1 + (FieldBits (params e) - 1) div LutBits (params e) \<and>
         ChunkCount (params e) =
           nat \<lceil>real (FieldBits (params e)) / real (LutBits (params e))\<rceil> \<and>
         length (LookupField_indices e field (make_index_sequence (ChunkCount (params e)))) =
           nat \<lceil>real (FieldBits (params e)) / real (LutBits (params e))\<rceil>"
proof -
  have c: "nat \<lceil>real (FieldBits (params e)) / real (LutBits (params e))\<rceil> =
      ChunkCount (params e)"
    unfolding ChunkCount_ceiling [OF assms] by simp
  have "length (LookupField_indices e field (make_index_sequence (ChunkCount (params e)))) =
      ChunkCount (params e)"
    using make_index_sequence_ChunkCount_nonempty
    by (simp add: length_LookupField_indices length_make_index_sequence)
  then show ?thesis unfolding c by (simp add: ChunkCount_def)
qed

theorem ChunkCount_is_ceiling_witness:
  "0 < FieldBits \<lparr>Dimensions = 3, FieldBits = 21, LutBits = 11, T = uint64_t\<rparr> \<and>
   0 < LutBits \<lparr>Dimensions = 3, FieldBits = 21, LutBits = 11, T = uint64_t\<rparr> \<and>
   ChunkCount \<lparr>Dimensions = 3, FieldBits = 21, LutBits = 11, T = uint64_t\<rparr> = 2 \<and>
   nat \<lceil>(21::real) / 11\<rceil> = 2 \<and>
   length (LookupField_indices
     (MortonNDLutEncoder \<lparr>Dimensions = 3, FieldBits = 21, LutBits = 11, T = uint64_t\<rparr>)
     2097151 (make_index_sequence 2)) = 2"
proof -
  define cfg where "cfg = \<lparr>Dimensions = 3, FieldBits = 21, LutBits = 11, T = uint64_t\<rparr>"
  define e where "e = MortonNDLutEncoder cfg"
  have p: "params e = cfg" by (simp add: e_def params_MortonNDLutEncoder)
  have f: "0 < FieldBits (params e)" and l: "0 < LutBits (params e)"
    by (simp_all add: p cfg_def)
  have c: "ChunkCount cfg = 2" by (simp add: cfg_def ChunkCount_def)
  show ?thesis
    using ChunkCount_is_ceiling [OF f l, of 2097151] c
    unfolding p unfolding e_def cfg_def by simp
qed

section \<open>The concrete scenario\<close>

text \<open>
  C7. With \<open>Dimensions = 2\<close>, \<open>FieldBits = 8\<close> and \<open>LutBits = 4\<close>, whatever the (valid)
  encoding type, \<open>Encode(5, 9)\<close> returns 147.
\<close>

theorem Encode_5_9:
  assumes "valid_config cfg" and "Dimensions cfg = 2" and "FieldBits cfg = 8"
    and "LutBits cfg = 4"
  shows "Encode (MortonNDLutEncoder cfg) [5, 9] = Some 147"
proof -
  have l: "length [5, 9 :: nat] = Dimensions cfg" using assms(2) by simp
  have r: "\<forall>f \<in> set [5, 9 :: nat]. f < 2 ^ FieldBits cfg" using assms(3) by simp
  have "EncodeInternal (MortonNDLutEncoder cfg) [5, 9] =
      naive_interleave (Dimensions cfg) (FieldBits cfg) [5, 9]"
    using assms(1) l r by (rule EncodeInternal_eq_naive_interleave)
  also have "\<dots> = 147"
    unfolding assms(2,3) by (simp add: naive_interleave_eval)
  finally show ?thesis
    unfolding Encode_eq_Some [OF l] by simp
qed

theorem Encode_5_9_witness:
  "valid_config \<lparr>Dimensions = 2, FieldBits = 8, LutBits = 4, T = uint16_t\<rparr> \<and>
   Encode (MortonNDLutEncoder \<lparr>Dimensions = 2, FieldBits = 8, LutBits = 4, T = uint16_t\<rparr>)
     [5, 9] = Some 147"
proof -
  define cfg where "cfg = \<lparr>Dimensions = 2, FieldBits = 8, LutBits = 4, T = uint16_t\<rparr>"
  have v: "valid_config cfg" by (simp add: cfg_def valid_config_eval)
  have "Encode (MortonNDLutEncoder cfg) [5, 9] = Some 147"
    using v by (rule Encode_5_9) (simp_all add: cfg_def)
  with v show ?thesis unfolding cfg_def by blast
qed

text \<open>
  The same call evaluated step by step on the 16-bit instance: the two chunks of each
  field, their table entries, and the shifts.
\<close>

lemma Encode_uint16_t_evaluated:
  "Encode (MortonNDLutEncoder \<lparr>Dimensions = 2, FieldBits = 8, LutBits = 4, T = uint16_t\<rparr>)
     [5, 9] = Some 147"
proof -
  define cfg where "cfg = \<lparr>Dimensions = 2, FieldBits = 8, LutBits = 4, T = uint16_t\<rparr>"
  define e where "e = MortonNDLutEncoder cfg"
  have v: "valid_config cfg" by (simp add: cfg_def valid_config_eval)
  have p: "params e = cfg" by (simp add: e_def params_MortonNDLutEncoder)
  have tbl: "LookupTable e ! i = SplitByN 4 i 2" if "i < 16" for i
    using nth_LookupTable [OF v, of i] that by (simp add: e_def cfg_def)
  have cm: "ChunkMask cfg = 15"
    by (simp add: ChunkMask_def cfg_def size_t_digits_def mask_numeral)
  have cc: "make_index_sequence (ChunkCount cfg) = [0, 1]"
    by (simp add: make_index_sequence_def ChunkCount_def cfg_def upt_rec)
  have s0: "SplitByN 4 0 2 = 0" and s5: "SplitByN 4 5 2 = 17" and s9: "SplitByN 4 9 2 = 65"
    by (simp_all add: SplitByN_eval)
  have w: "digits (T cfg) = 16" and dl: "size_mul (Dimensions cfg) (LutBits cfg) = 8"
    and l: "LutBits cfg = 4"
    by (simp_all add: cfg_def uint16_t_def size_mul_def to_size_t_def size_t_digits_def)
  have f5: "LookupField e 5 [0, 1] = 17"
    by (simp add: p cm to_T_def w dl l to_size_t_def size_t_digits_def tbl s0 s5)
  have f9: "LookupField e 9 [0, 1] = 65"
    by (simp add: p cm to_T_def w dl l to_size_t_def size_t_digits_def tbl s0 s9)
  have t5: "to_T cfg 5 = 5" and t9: "to_T cfg 9 = 9"
    by (simp_all add: to_T_def w)
  have "EncodeInternal e [5, 9] = to_T cfg (push_bit 1 65 OR 17)"
    by (simp only: EncodeInternal.simps p cc t5 t9 f5 f9)
  also have "\<dots> = 147"
    by (simp add: to_T_def w)
  finally have "EncodeInternal e [5, 9] = 147" .
  then show ?thesis
    unfolding e_def cfg_def by (simp add: Encode_def params_MortonNDLutEncoder)
qed

section \<open>The spreader on its own\<close>

text \<open>
  The spreader works on 64-bit values. With three remaining bits and stride 40 every
  shift is by less than 64, but bit 2 of the input would have to land at position 80:
  the second shift drops it, and the spread of 4 is 0.
\<close>

theorem SplitByN_wide_stride_counterexample:
  "(4::nat) < 2 ^ 3 \<and> (1::nat) \<le> 40 \<and> bit (4::nat) 2 \<and>
   \<not> bit (SplitByN 3 4 40) (2 * 40) \<and> SplitByN 3 4 40 = 0"
proof -
  have "SplitByN 3 4 40 = 0" by (simp add: SplitByN_eval)
  then show ?thesis by (simp add: bit_Suc_0_iff)
qed

lemma SplitByN_shift_exact:
  assumes "0 < s" and "1 < n" and "(n - 1) * s < 64"
  shows "to_size_t (push_bit s (SplitByN (n - 1) y s)) = push_bit s (SplitByN (n - 1) y s)"
proof -
  have n1: "0 < n - 1" using assms(2) by simp
  have "n - 1 - 1 \<le> n - 1" by arith
  then have "(n - 1 - 1) * s \<le> (n - 1) * s" by (rule mult_le_mono1)
  from this assms(3) have f: "(n - 1 - 1) * s < 64" by (rule le_less_trans)
  have "p < 64" if "bit (push_bit s (SplitByN (n - 1) y s)) p" for p
  proof -
    from that have sp: "s \<le> p" and b: "bit (SplitByN (n - 1) y s) (p - s)"
      by (simp_all add: bit_push_bit_iff)
    have "p - s \<le> (n - 1 - 1) * s"
      using assms(1) n1 f b by (rule SplitByN_bit_le)
    then have "p \<le> (n - 1 - 1) * s + s" using sp by simp
    also have "\<dots> = (n - 1) * s"
    proof -
      obtain k where k: "n - 1 = Suc k" using n1 by (cases "n - 1") auto
      show ?thesis unfolding k by simp
    qed
    finally show ?thesis using assms(3) by simp
  qed
  then show ?thesis
    unfolding to_size_t_def size_t_digits_def by (rule take_bit_eq_self_bits)
qed

text \<open>
  C3, within the 64 bits of the value. \<open>SplitByN<n>(x, s)\<close> is \<open>x & 1\<close> for \<open>n = 1\<close> and
  \<open>(SplitByN<n - 1>(x >> 1, s) << s) | (x & 1)\<close> for \<open>n > 1\<close>; and when the stride is at
  least 1, the input fits in \<open>n\<close> bits and the highest spread position \<open>(n - 1) * s\<close> is
  below 64, the result read in groups of \<open>s\<close> bits has bit 0 of group \<open>j\<close> equal to bit
  \<open>j\<close> of the input and every other bit zero.
\<close>

theorem SplitByN_spreads:
  assumes "0 < n" and "0 < s" and "(n - 1) * s < 64" and "x < 2 ^ n"
  shows "(n = 1 \<longrightarrow> SplitByN n x s = x AND 1) \<and>
         (1 < n \<longrightarrow> SplitByN n x s =
            push_bit s (SplitByN (n - 1) (drop_bit 1 x) s) OR (x AND 1)) \<and>
         (\<forall>j. \<forall>r < s. bit (SplitByN n x s) (j * s + r) \<longleftrightarrow> r = 0 \<and> bit x j)"
proof -
  have 1: "SplitByN n x s = x AND 1" if "n = 1"
    unfolding that by simp
  have 2: "SplitByN n x s = push_bit s (SplitByN (n - 1) (drop_bit 1 x) s) OR (x AND 1)"
    if "1 < n"
    unfolding SplitByN_unfold [OF that] SplitByN_shift_exact [OF assms(2) that assms(3)] ..
  have 3: "bit (SplitByN n x s) (j * s + r) \<longleftrightarrow> r = 0 \<and> bit x j" if "r < s" for j r
  proof -
    have d: "(j * s + r) div s = j" using that by simp
    have "(j * s + r) mod s = r" using that by simp
    then have v: "s dvd (j * s + r) \<longleftrightarrow> r = 0" by (simp add: dvd_eq_mod_eq_0)
    have "j < n" if "bit x j" using assms(4) that by (rule bit_nat_less_exp)
    then show ?thesis
      unfolding SplitByN_bit [OF assms(2) assms(1) assms(3)] d v by blast
  qed
  from 1 2 3 show ?thesis by blast
qed

theorem SplitByN_spreads_witness:
  "(0::nat) < 3 \<and> (3 - 1) * 3 < (64::nat) \<and> (7::nat) < 2 ^ 3 \<and>
   SplitByN 3 7 3 = push_bit 3 (SplitByN 2 3 3) OR 1 \<and>
   SplitByN 3 7 3 = 73 \<and>
   bit (SplitByN 3 7 3) 6 \<and> \<not> bit (SplitByN 3 7 3) 7"
proof -
  have a: "(0::nat) < 3" and b: "(3 - 1) * 3 < (64::nat)" and c: "(7::nat) < 2 ^ 3"
    by simp_all
  note t = SplitByN_spreads [OF a a b c]
  from t have "SplitByN 3 7 3 = push_bit 3 (SplitByN (3 - 1) (drop_bit 1 7) 3) OR (7 AND 1)"
    by simp
  then have 1: "SplitByN 3 7 3 = push_bit 3 (SplitByN 2 3 3) OR 1" by simp
  from t have g: "\<forall>j. \<forall>r < 3. bit (SplitByN 3 7 3) (j * 3 + r) \<longleftrightarrow> r = 0 \<and> bit (7::nat) j"
    by blast
  have "(0::nat) < 3 \<longrightarrow> (bit (SplitByN 3 7 3) (2 * 3 + 0) \<longleftrightarrow> (0::nat) = 0 \<and> bit (7::nat) 2)"
    using g by blast
  then have 2: "bit (SplitByN 3 7 3) 6" by (simp add: bit_Suc_0_iff)
  have "(1::nat) < 3 \<longrightarrow> (bit (SplitByN 3 7 3) (2 * 3 + 1) \<longleftrightarrow> (1::nat) = 0 \<and> bit (7::nat) 2)"
    using g by blast
  then have 3: "\<not> bit (SplitByN 3 7 3) 7" by simp
  have 4: "SplitByN 3 7 3 = 73" by (simp add: SplitByN_eval)
  from 1 2 3 4 show ?thesis by simp
qed

section \<open>Rejected configurations\<close>

text \<open>
  The assertions on the width and the signedness of \<open>T\<close> are guarded by
  \<open>std::is_integral<T>\<close>: \<open>double\<close> is signed and its 53 digits cannot hold a 64-bit
  result, and the class is instantiated and constructed all the same.
\<close>

theorem Construct_accepts_double_counterexample:
  "Construct \<lparr>Dimensions = 2, FieldBits = 32, LutBits = 8, T = double_t\<rparr> =
     Inr (MortonNDLutEncoder \<lparr>Dimensions = 2, FieldBits = 32, LutBits = 8, T = double_t\<rparr>) \<and>
   \<not> is_unsigned double_t \<and> digits double_t < 2 * 32"
  by (simp add: Construct_def static_asserts_Nil_iff LutValueWidth_def size_mul_def
      to_size_t_def size_t_digits_def double_t_def)

lemma Construct_Inl_iff: "(\<exists>errs. Construct cfg = Inl errs) \<longleftrightarrow> static_asserts cfg \<noteq> []"
  by (simp add: Construct_def)

text \<open>
  C5, with the guard on integral types. For template arguments whose products
  \<open>Dimensions * FieldBits\<close> and \<open>Dimensions * LutBits\<close> do not overflow \<open>std::size_t\<close>,
  construction is rejected exactly when \<open>Dimensions\<close>, \<open>FieldBits\<close> or \<open>LutBits\<close> is 0,
  \<open>LutBits\<close> exceeds \<open>FieldBits\<close> or 32, \<open>Dimensions * LutBits\<close> exceeds 64 or the
  width of \<open>std::size_t\<close>, \<open>T\<close> is integral and signed, \<open>T\<close> is integral and cannot hold
  \<open>Dimensions * FieldBits\<close> bits, or a \<open>std::size_t\<close> cannot be constructed from \<open>T\<close>.
\<close>

theorem Construct_rejects_iff:
  assumes "Dimensions cfg * FieldBits cfg < 2 ^ 64"
    and "Dimensions cfg * LutBits cfg < 2 ^ 64"
  shows "(\<exists>errs. Construct cfg = Inl errs) \<longleftrightarrow>
           Dimensions cfg = 0 \<or> FieldBits cfg = 0 \<or> LutBits cfg = 0 \<or>
           FieldBits cfg < LutBits cfg \<or> 32 < LutBits cfg \<or>
           64 < Dimensions cfg * LutBits cfg \<or>
           size_t_digits < Dimensions cfg * LutBits cfg \<or>
           (is_integral (T cfg) \<and> \<not> is_unsigned (T cfg)) \<or>
           (is_integral (T cfg) \<and> digits (T cfg) < Dimensions cfg * FieldBits cfg) \<or>
           \<not> size_t_constructible (T cfg)"
proof -
  have DF: "size_mul (Dimensions cfg) (FieldBits cfg) = Dimensions cfg * FieldBits cfg"
    using assms(1) by (rule size_mul_exact)
  have "LutBits cfg * Dimensions cfg < 2 ^ 64"
    using assms(2) by (simp only: mult.commute [of "LutBits cfg" "Dimensions cfg"])
  then have "size_mul (LutBits cfg) (Dimensions cfg) = LutBits cfg * Dimensions cfg"
    by (rule size_mul_exact)
  then have W: "LutValueWidth cfg = Dimensions cfg * LutBits cfg"
    unfolding LutValueWidth_def by (simp only: mult.commute [of "LutBits cfg" "Dimensions cfg"])
  show ?thesis
    unfolding Construct_Inl_iff static_asserts_Nil_iff DF W size_t_digits_def
    by (simp only: not_less [symmetric]) auto
qed

theorem Construct_rejects_iff_witness:
  "(0::nat) * 16 < 2 ^ 64 \<and> (0::nat) * 8 < 2 ^ 64 \<and>
   (\<exists>errs. Construct \<lparr>Dimensions = 0, FieldBits = 16, LutBits = 8, T = uint32_t\<rparr> = Inl errs) \<and>
   Construct \<lparr>Dimensions = 0, FieldBits = 16, LutBits = 8, T = uint32_t\<rparr> = Inl [DimensionsZero] \<and>
   (3::nat) * 21 < 2 ^ 64 \<and> (3::nat) * 11 < 2 ^ 64 \<and>
   \<not> (\<exists>errs. Construct \<lparr>Dimensions = 3, FieldBits = 21, LutBits = 11, T = uint64_t\<rparr> = Inl errs)"
proof -
  define c0 where "c0 = \<lparr>Dimensions = 0, FieldBits = 16, LutBits = 8, T = uint32_t\<rparr>"
  define c1 where "c1 = \<lparr>Dimensions = 3, FieldBits = 21, LutBits = 11, T = uint64_t\<rparr>"
  have a0: "Dimensions c0 * FieldBits c0 < 2 ^ 64" and b0: "Dimensions c0 * LutBits c0 < 2 ^ 64"
    by (simp_all add: c0_def)
  have a1: "Dimensions c1 * FieldBits c1 < 2 ^ 64" and b1: "Dimensions c1 * LutBits c1 < 2 ^ 64"
    by (simp_all add: c1_def)
  have 0: "\<exists>errs. Construct c0 = Inl errs"
    unfolding Construct_rejects_iff [OF a0 b0] by (simp add: c0_def)
  have 1: "\<not> (\<exists>errs. Construct c1 = Inl errs)"
    unfolding Construct_rejects_iff [OF a1 b1]
    by (simp add: c1_def uint64_t_def size_t_digits_def)
  have 2: "Construct c0 = Inl [DimensionsZero]"
    by (simp add: Construct_def static_asserts_def static_assert_def c0_def uint32_t_def
        LutValueWidth_def size_mul_def to_size_t_def size_t_digits_def)
  from 0 1 2 show ?thesis unfolding c0_def c1_def by simp
qed

text \<open>
  On an instance with an integral \<open>T\<close>, every subscript at which \<open>LookupField\<close> reads
  the table lies within the table: the reads of \<open>Encode\<close> cannot leave the array.
\<close>

lemma LookupField_indices_in_bounds:
  assumes v: "valid_config cfg" and ne: "idxs \<noteq> []"
  shows "\<forall>i \<in> set (LookupField_indices (MortonNDLutEncoder cfg) field idxs).
           i < length (LookupTable (MortonNDLutEncoder cfg))"
  using ne
proof (induction idxs arbitrary: field rule: list_nonempty_induct)
  case (single i)
  have L: "LutBits cfg \<le> 64" using valid_configD(5) [OF v] by simp
  have "take_bit (LutBits cfg) field < 2 ^ LutBits cfg"
    by (rule take_bit_nat_less_exp)
  then show ?case
    by (simp add: params_MortonNDLutEncoder and_ChunkMask [OF L] length_LookupTable [OF v])
next
  case (cons i rest)
  obtain j args where rest: "rest = j # args"
    using cons.hyps by (cases rest) auto
  have L: "LutBits cfg \<le> 64" using valid_configD(5) [OF v] by simp
  have "take_bit (LutBits cfg) field < 2 ^ LutBits cfg"
    by (rule take_bit_nat_less_exp)
  moreover have "to_size_t (field AND ChunkMask cfg) = take_bit (LutBits cfg) field"
    using to_size_t_index [OF v, of field] and_ChunkMask [OF L, of field] by simp
  ultimately have h: "to_size_t (field AND ChunkMask cfg)
      < length (LookupTable (MortonNDLutEncoder cfg))"
    by (simp add: length_LookupTable [OF v])
  show ?case
    using h cons.IH [of "to_T cfg (drop_bit (LutBits cfg) field)"]
    unfolding rest by (simp add: params_MortonNDLutEncoder)
qed

section \<open>The input mask\<close>

lemma InputMask_narrow:
  assumes "is_integral (T cfg)" and "digits (T cfg) \<le> 31"
  shows "InputMask cfg = Some (2 ^ digits (T cfg) - 1)"
proof -
  have "nat (take_bit (digits (T cfg)) (drop_bit (digits (T cfg) - FieldBits cfg) (NOT (0::int))))
      = nat (mask (digits (T cfg)))"
    by simp
  also have "\<dots> = mask (digits (T cfg))" by (simp add: nat_mask_eq)
  finally show ?thesis
    using assms by (simp add: InputMask_def int_digits_def mask_eq_exp_minus_1)
qed

lemma InputMask_wide:
  assumes "is_integral (T cfg)" and "32 \<le> digits (T cfg)"
    and "FieldBits cfg \<le> digits (T cfg)"
  shows "InputMask cfg = Some (2 ^ FieldBits cfg - 1)"
proof -
  have "digits (T cfg) - (digits (T cfg) - FieldBits cfg) = FieldBits cfg"
    using assms(3) by simp
  then have "drop_bit (digits (T cfg) - FieldBits cfg) (mask (digits (T cfg)) :: nat)
      = mask (FieldBits cfg)"
    by (simp add: drop_bit_mask_eq)
  then show ?thesis
    using assms(1,2) by (simp add: InputMask_def int_digits_def mask_eq_exp_minus_1)
qed

lemma InputMask_idempotent:
  "InputMask cfg = Some m \<Longrightarrow> (x AND m) AND m = x AND m"
  by (simp add: and.assoc)

text \<open>
  C6. \<open>InputMask()\<close> is meant to be \<open>(1 << FieldBits) - 1\<close>. On an 8-bit \<open>T\<close> with
  \<open>FieldBits = 3\<close> the code returns 255, not 7: \<open>~T(0)\<close> is computed after the promotion
  of \<open>T(0)\<close> to \<open>int\<close>, so it is \<open>-1\<close>, the right shift keeps it \<open>-1\<close>, and the
  conversion back to \<open>T\<close> sets all 8 bits.
\<close>

theorem InputMask_uint8_t:
  "valid_config \<lparr>Dimensions = 2, FieldBits = 3, LutBits = 3, T = uint8_t\<rparr> \<and>
   InputMask \<lparr>Dimensions = 2, FieldBits = 3, LutBits = 3, T = uint8_t\<rparr> = Some 255 \<and>
   (2::nat) ^ FieldBits \<lparr>Dimensions = 2, FieldBits = 3, LutBits = 3, T = uint8_t\<rparr> - 1 = 7"
proof -
  define cfg where "cfg = \<lparr>Dimensions = 2, FieldBits = 3, LutBits = 3, T = uint8_t\<rparr>"
  have v: "valid_config cfg" by (simp add: cfg_def valid_config_eval)
  have i: "is_integral (T cfg)" and "digits (T cfg) \<le> 31"
    by (simp_all add: cfg_def uint8_t_def)
  then have "InputMask cfg = Some (2 ^ digits (T cfg) - 1)" by (rule InputMask_narrow)
  then have "InputMask cfg = Some 255" by (simp add: cfg_def uint8_t_def)
  with v show ?thesis unfolding cfg_def by simp
qed

end
